theory Spec2Isabelle
  imports Main "HOL-Library.AList"
begin

section \<open>JavaScript values\<close>

text \<open>
  The pipeline passes plain JavaScript values around: step results, the shared input
  and the options handed to an agent. They are modelled as a datatype; an object is the
  list of its own properties in insertion order, read through \<open>map_of\<close> and written with
  \<open>AList.update\<close> (an existing key keeps its place, a new key goes to the end).
  Modelling conventions: numbers are integers; properties inherited from a prototype
  are not modelled, an object used as a dictionary is the map of its own properties; a
  string is a list of 8-bit characters.
\<close>

datatype jsval =
    JUndefined
  | JNull
  | JBool bool
  | JNum int
  | JStr string
  | JArr "jsval list"
  | JObj "(string \<times> jsval) list"

type_synonym obj = "(string \<times> jsval) list"

text \<open>A thrown value: an \<open>Error\<close> or a \<open>TypeError\<close>, each with its message.\<close>

datatype exn = Error string | TypeError string

fun message :: "exn \<Rightarrow> string" where
  "message (Error m) = m"
| "message (TypeError m) = m"

text \<open>
  How an awaited call ends: the promise is fulfilled with a value, is rejected with a
  thrown value, or never settles (an unanswered prompt, an agent that hangs).
\<close>

datatype 'a settled = Resolved 'a | Rejected exn | Pending

fun truthy :: "jsval \<Rightarrow> bool" where
  "truthy JUndefined = False"
| "truthy JNull = False"
| "truthy (JBool b) = b"
| "truthy (JNum n) = (n \<noteq> 0)"
| "truthy (JStr s) = (s \<noteq> [])"
| "truthy (JArr xs) = True"
| "truthy (JObj kvs) = True"

definition quote :: "string \<Rightarrow> string" where
  "quote k = [CHR 0x27] @ k @ [CHR 0x27]"

text \<open>The message text of the engine's TypeError for a property read on null or undefined.\<close>

definition cannot_read :: "jsval \<Rightarrow> string \<Rightarrow> exn" where
  "cannot_read v k =
     TypeError (''Cannot read properties of '' @ (if v = JNull then ''null'' else ''undefined'')
                @ '' (reading '' @ quote k @ '')'')"

text \<open>
  The property read \<open>v.k\<close>: a TypeError on null and undefined, the own property of an
  object or undefined when it has none, undefined on the other values (none of the keys
  the pipeline reads is a built-in property of a primitive or an array).
\<close>

fun get :: "jsval \<Rightarrow> string \<Rightarrow> exn + jsval" where
  "get JUndefined k = Inl (cannot_read JUndefined k)"
| "get JNull k = Inl (cannot_read JNull k)"
| "get (JObj kvs) k = Inr (case map_of kvs k of None \<Rightarrow> JUndefined | Some v \<Rightarrow> v)"
| "get v k = Inr JUndefined"

fun show_nat :: "nat \<Rightarrow> string" where
  "show_nat n =
     (if n < 10 then [char_of (48 + n)]
      else show_nat (n div 10) @ [char_of (48 + n mod 10)])"

text \<open>
  The own enumerable properties an object spread \<open>{...v}\<close> copies: those of an object,
  the indexed elements of an array, the indexed characters of a string, none for the
  other values (null and undefined included).
\<close>

fun own_props :: "jsval \<Rightarrow> obj" where
  "own_props (JObj kvs) = kvs"
| "own_props (JArr xs) = zip (map show_nat [0..<length xs]) xs"
| "own_props (JStr s) = zip (map show_nat [0..<length s]) (map (\<lambda>c. JStr [c]) s)"
| "own_props v = []"

text \<open>
  Copying the properties of \<open>src\<close> onto \<open>target\<close>, in order; \<open>{...a, ...b}\<close> is
  \<open>spread a b\<close>. An object has one property for a key: \<open>AList.clearjunk\<close> is the
  identity on such a list and otherwise keeps the binding that \<open>map_of\<close> reads.
\<close>

definition obj_assign :: "obj \<Rightarrow> jsval \<Rightarrow> obj" where
  "obj_assign target src =
     fold (\<lambda>(k, v). AList.update k v) (AList.clearjunk (own_props src)) target"

definition spread :: "jsval \<Rightarrow> jsval \<Rightarrow> obj" where
  "spread a b = obj_assign (obj_assign [] a) b"

section \<open>Strings: the built-ins the prompter uses\<close>

text \<open>White space and letter case are modelled on ASCII.\<close>

definition is_space :: "char \<Rightarrow> bool" where
  "is_space c = (c \<in> set [CHR 0x09, CHR 0x0A, CHR 0x0B, CHR 0x0C, CHR 0x0D, CHR 0x20])"

definition trim :: "string \<Rightarrow> string" where
  "trim s = rev (dropWhile is_space (rev (dropWhile is_space s)))"

definition lower_char :: "char \<Rightarrow> char" where
  "lower_char c =
     (if (65::nat) \<le> of_char c \<and> of_char c \<le> (90::nat) then char_of (of_char c + (32::nat)) else c)"

definition toLowerCase :: "string \<Rightarrow> string" where
  "toLowerCase s = map lower_char s"

definition is_digit :: "char \<Rightarrow> bool" where
  "is_digit c = ((48::nat) \<le> of_char c \<and> of_char c \<le> (57::nat))"

definition digits_value :: "string \<Rightarrow> nat" where
  "digits_value ds = foldl (\<lambda>a c. 10 * a + (of_char c - 48)) 0 ds"

text \<open>\<open>parseInt(s, 10)\<close>: leading white space, an optional sign, then the longest run of
  decimal digits; \<open>None\<close> is NaN.\<close>

definition parseInt :: "string \<Rightarrow> int option" where
  "parseInt s =
     (let t = dropWhile is_space s;
          neg = (t \<noteq> [] \<and> hd t = CHR ''-'');
          u = (if t \<noteq> [] \<and> (hd t = CHR ''-'' \<or> hd t = CHR ''+'') then tl t else t);
          ds = takeWhile is_digit u
      in if ds = [] then None
         else Some (if neg then - int (digits_value ds) else int (digits_value ds)))"

section \<open>The environment of a run\<close>

text \<open>
  The world outside the pipeline (the file system the agents write to, the person at
  the terminal) is a value of an arbitrary type \<open>'w\<close>, threaded through every call that
  can touch it. An agent is the object a module exports: its name and its
  \<open>execute(input, options)\<close>.
\<close>

record 'w agent =
  agent_name :: string
  execute :: "jsval \<Rightarrow> jsval \<Rightarrow> 'w \<Rightarrow> jsval settled \<times> 'w"

text \<open>One step of a workflow document; an optional field is \<open>None\<close> when absent.\<close>

record step =
  agent :: string
  step_id :: "string option"
  step_name :: "string option"
  confirm :: bool
  confirmType :: "string option"
  confirmMessage :: "string option"
  step_options :: "obj option"
  step_output :: "string option"

record workflow_doc =
  wf_name :: string
  steps :: "step list option"

text \<open>
  What the run finds around it: \<open>require\<close> gives the module at a path or fails
  (\<open>None\<close>); \<open>workflows\<close> is the workflows directory, by workflow name, \<open>None\<close> for a
  document that is absent or unreadable; \<open>question\<close> is one line typed at the
  terminal, \<open>None\<close> when no answer ever comes.
\<close>

record 'w env =
  require :: "string \<Rightarrow> 'w agent option"
  workflows :: "string \<Rightarrow> workflow_doc option"
  question :: "'w \<Rightarrow> string option \<times> 'w"

section \<open>The prompter (shared/lib/prompter.js)\<close>

text \<open>What is printed on the console is not modelled, only what is read and returned.\<close>

definition ask :: "'w env \<Rightarrow> string \<Rightarrow> 'w \<Rightarrow> string settled \<times> 'w" where
  "ask env defaultValue w =
     (case question env w of
        (None, w') \<Rightarrow> (Pending, w')
      | (Some answer, w') \<Rightarrow>
          (Resolved (if trim answer \<noteq> [] then trim answer else defaultValue), w'))"

definition confirm_prompt :: "'w env \<Rightarrow> string \<Rightarrow> bool \<Rightarrow> 'w \<Rightarrow> bool settled \<times> 'w" where
  "confirm_prompt env q defaultYes w =
     (case question env w of
        (None, w') \<Rightarrow> (Pending, w')
      | (Some answer, w') \<Rightarrow>
          (let normalized = toLowerCase (trim answer)
           in if normalized = [] then (Resolved defaultYes, w')
              else (Resolved (normalized = ''y'' \<or> normalized = ''yes''), w')))"

record choice =
  choice_index :: nat
  choice_value :: "string option"
  choice_label :: "string option"

text \<open>\<open>select\<close> over options given as \<open>{label, value}\<close> objects, here (label, value) pairs.\<close>

definition select :: "'w env \<Rightarrow> (string \<times> string) list \<Rightarrow> nat \<Rightarrow> 'w \<Rightarrow> choice settled \<times> 'w" where
  "select env options defaultIndex w =
     (case question env w of
        (None, w') \<Rightarrow> (Pending, w')
      | (Some answer, w') \<Rightarrow>
          (let index = (case parseInt (trim answer) of
                          None \<Rightarrow> defaultIndex
                        | Some num \<Rightarrow>
                            if 1 \<le> num \<and> num \<le> int (length options) then nat (num - 1)
                            else defaultIndex)
           in (Resolved
                 \<lparr>choice_index = index,
                  choice_value = (if index < length options then Some (snd (options ! index)) else None),
                  choice_label = (if index < length options then Some (fst (options ! index)) else None)\<rparr>,
               w')))"

text \<open>
  \<open>xs.forEach(x => ... x.k ...)\<close> where the callback first reads property \<open>k\<close> of each
  element: a TypeError unless \<open>xs\<close> is an array none of whose elements is null or
  undefined.
\<close>

definition forEach_reading :: "string \<Rightarrow> jsval \<Rightarrow> string \<Rightarrow> exn option" where
  "forEach_reading nm xs k =
     (case xs of
        JArr ts \<Rightarrow>
          (case find (\<lambda>t. t = JUndefined \<or> t = JNull) ts of
             Some t \<Rightarrow> Some (cannot_read t k)
           | None \<Rightarrow> None)
      | JUndefined \<Rightarrow> Some (cannot_read JUndefined ''forEach'')
      | JNull \<Rightarrow> Some (cannot_read JNull ''forEach'')
      | _ \<Rightarrow> Some (TypeError (nm @ ''.forEach is not a function'')))"

definition trend_options :: "(string \<times> string) list" where
  "trend_options =
     [(''continue as is'', ''continue''), (''edit the trends'', ''edit''),
      (''add a trend'', ''add''), (''analyse again'', ''retry''), (''cancel'', ''cancel'')]"

definition confirmTrends :: "'w env \<Rightarrow> jsval \<Rightarrow> 'w \<Rightarrow> string option settled \<times> 'w" where
  "confirmTrends env trends w =
     (case forEach_reading ''trends'' trends ''relevance'' of
        Some err \<Rightarrow> (Rejected err, w)
      | None \<Rightarrow>
          (case select env trend_options 0 w of
             (Resolved c, w') \<Rightarrow> (Resolved (choice_value c), w')
           | (Rejected err, w') \<Rightarrow> (Rejected err, w')
           | (Pending, w') \<Rightarrow> (Pending, w')))"

definition suggestion_options :: "(string \<times> string) list" where
  "suggestion_options =
     [(''apply the suggestions'', ''apply''), (''continue without applying'', ''skip''),
      (''enter an instruction'', ''manual''), (''cancel'', ''cancel'')]"

record suggestions_result =
  action :: "string option"
  instruction :: "string option"

definition confirmSuggestions :: "'w env \<Rightarrow> jsval \<Rightarrow> 'w \<Rightarrow> suggestions_result settled \<times> 'w" where
  "confirmSuggestions env suggestions w =
     (case forEach_reading ''suggestions'' suggestions ''title'' of
        Some err \<Rightarrow> (Rejected err, w)
      | None \<Rightarrow>
          (case select env suggestion_options 0 w of
             (Resolved c, w') \<Rightarrow>
               (if choice_value c = Some ''manual'' then
                  (case ask env [] w' of
                     (Resolved i, w'') \<Rightarrow>
                       (Resolved \<lparr>action = Some ''manual'', instruction = Some i\<rparr>, w'')
                   | (Rejected err, w'') \<Rightarrow> (Rejected err, w'')
                   | (Pending, w'') \<Rightarrow> (Pending, w''))
                else (Resolved \<lparr>action = choice_value c, instruction = None\<rparr>, w'))
           | (Rejected err, w') \<Rightarrow> (Rejected err, w')
           | (Pending, w') \<Rightarrow> (Pending, w')))"

section \<open>The pipeline (orchestrator/lib/pipeline.js)\<close>

record run_state =
  currentStep :: nat
  status :: string
  results :: obj

record 'w Pipeline =
  projectPath :: "string option"
  workflow :: string
  autoMode :: bool
  verbose :: bool
  agents :: "string \<Rightarrow> 'w agent option"
  state :: run_state

record pipeline_options =
  opt_projectPath :: "string option"
  opt_workflow :: "string option"
  opt_auto :: "bool option"
  opt_verbose :: "bool option"

text \<open>\<open>a || b\<close> on an optional string: the empty string is falsy as the absent one is.\<close>

definition or_else :: "string option \<Rightarrow> string \<Rightarrow> string" where
  "or_else a b = (case a of None \<Rightarrow> b | Some x \<Rightarrow> if x = [] then b else x)"

definition constructor :: "pipeline_options \<Rightarrow> 'w Pipeline" where
  "constructor options =
     \<lparr>projectPath = opt_projectPath options,
      workflow = or_else (opt_workflow options) ''default'',
      autoMode = (case opt_auto options of None \<Rightarrow> False | Some b \<Rightarrow> b),
      verbose = (case opt_verbose options of None \<Rightarrow> False | Some b \<Rightarrow> b),
      agents = Map.empty,
      state = \<lparr>currentStep = 0, status = ''idle'', results = []\<rparr>\<rparr>"

text \<open>The text of a message is abbreviated where the source has it in Japanese.\<close>

definition loadWorkflow :: "'w env \<Rightarrow> string \<Rightarrow> exn + step list" where
  "loadWorkflow env workflowName =
     (case workflows env workflowName of
        None \<Rightarrow> Inl (Error (''workflow '' @ quote workflowName @ '' not found''))
      | Some doc \<Rightarrow>
          (case steps doc of
             None \<Rightarrow> Inl (Error (''workflow '' @ quote workflowName @ '' not found''))
           | Some ss \<Rightarrow> Inr ss))"

definition createMockAgent :: "string \<Rightarrow> 'w agent" where
  "createMockAgent agentName =
     \<lparr>agent_name = agentName,
      execute = (\<lambda>input options w.
        (Resolved (JObj [(''success'', JBool True), (''mock'', JBool True),
                         (''input'', input), (''options'', options)]), w))\<rparr>"

definition agentPaths :: "string \<Rightarrow> string option" where
  "agentPaths =
     [''research_agent'' \<mapsto> ''../../agents/research_agent'',
      ''creative_writer_agent'' \<mapsto> ''../../agents/creative_writer_agent'',
      ''rights_checker_agent'' \<mapsto> ''../../agents/rights_checker_agent'',
      ''editor_agent'' \<mapsto> ''../../agents/editor_agent'']"

text \<open>
  \<open>getAgent\<close> returns the agent and the pipeline with its cache filled. Both ways of
  failing inside the \<open>try\<close> (a name without a path, a \<open>require\<close> that throws) end in the
  \<open>catch\<close>, which caches the mock agent.
\<close>

definition getAgent :: "'w env \<Rightarrow> 'w Pipeline \<Rightarrow> string \<Rightarrow> 'w agent \<times> 'w Pipeline" where
  "getAgent env p agentName =
     (case agents p agentName of
        Some a \<Rightarrow> (a, p)
      | None \<Rightarrow>
          (let loaded = (case agentPaths agentName of
                           None \<Rightarrow> None
                         | Some agentPath \<Rightarrow> require env agentPath);
               a = (case loaded of None \<Rightarrow> createMockAgent agentName | Some m \<Rightarrow> m)
           in (a, p\<lparr>agents := (agents p)(agentName \<mapsto> a)\<rparr>)))"

definition step_options_obj :: "'w Pipeline \<Rightarrow> step \<Rightarrow> jsval" where
  "step_options_obj p s =
     JObj (spread
       (JObj [(''projectPath'', case projectPath p of None \<Rightarrow> JUndefined | Some x \<Rightarrow> JStr x),
              (''outputPath'', case step_output s of None \<Rightarrow> JUndefined | Some x \<Rightarrow> JStr x)])
       (case step_options s of None \<Rightarrow> JUndefined | Some opts \<Rightarrow> JObj opts))"

text \<open>
  \<open>executeStep\<close>: resolve the agent, build the options, await \<open>execute\<close>, read
  \<open>result.success\<close> for the log line (a TypeError when the agent returned null or
  undefined) and return the result.
\<close>

definition executeStep ::
  "'w env \<Rightarrow> 'w Pipeline \<Rightarrow> step \<Rightarrow> jsval \<Rightarrow> 'w \<Rightarrow> jsval settled \<times> 'w Pipeline \<times> 'w" where
  "executeStep env p s input w =
     (case getAgent env p (agent s) of
        (a, p') \<Rightarrow>
          (case execute a input (step_options_obj p s) w of
             (Resolved result, w') \<Rightarrow>
               (case get result ''success'' of
                  Inl err \<Rightarrow> (Rejected err, p', w')
                | Inr ok \<Rightarrow> (Resolved result, p', w'))
           | (Rejected err, w') \<Rightarrow> (Rejected err, p', w')
           | (Pending, w') \<Rightarrow> (Pending, p', w')))"

text \<open>The fallback prompt of the default gate, the source's Japanese text in UTF-8.\<close>

definition default_confirm_message :: string where
  "default_confirm_message =
     map char_of [231, 182, 154, 232, 161, 140, 227, 129, 151, 227, 129, 190, 227, 129, 153,
                  227, 129, 139, 239, 188, 159 :: nat]"

text \<open>
  The calls the pipeline makes to its collaborators, in order: what a test double
  would record. \<open>Execute i input r\<close>: step \<open>i\<close> ran on \<open>input\<close> and \<open>executeStep\<close> ended as
  \<open>r\<close>; \<open>Stored i key result\<close>: the run wrote \<open>results[key] = result\<close> at step \<open>i\<close>;
  \<open>TrendsGate\<close>, \<open>SuggestionsGate\<close>, \<open>ConfirmGate\<close>: the prompter function called, with
  its arguments; \<open>ConfirmPoint i r\<close>: \<open>handleConfirmPoint\<close> at step \<open>i\<close> ended as \<open>r\<close>.
\<close>

datatype event =
    Execute nat jsval "jsval settled"
  | Stored nat string jsval
  | TrendsGate jsval
  | SuggestionsGate jsval
  | ConfirmGate string bool
  | ConfirmPoint nat "bool settled"

text \<open>The step an event belongs to, and the events that are calls to the prompter.\<close>

fun event_step :: "event \<Rightarrow> nat option" where
  "event_step (Execute i c r) = Some i"
| "event_step (Stored i k v) = Some i"
| "event_step (ConfirmPoint i r) = Some i"
| "event_step e = None"

fun gate_call :: "event \<Rightarrow> bool" where
  "gate_call (TrendsGate x) = True"
| "gate_call (SuggestionsGate x) = True"
| "gate_call (ConfirmGate q d) = True"
| "gate_call e = False"

fun is_gate :: "event \<Rightarrow> bool" where
  "is_gate (ConfirmPoint i r) = True"
| "is_gate e = gate_call e"

text \<open>
  \<open>handleConfirmPoint\<close>: the \<open>switch\<close> on \<open>step.confirmType || 'default'\<close>. The payload
  of a list gate is \<open>result.output.trends || []\<close>; reading it throws when \<open>result.output\<close>
  is null or undefined.
\<close>

definition handleConfirmPoint ::
  "'w env \<Rightarrow> step \<Rightarrow> jsval \<Rightarrow> 'w \<Rightarrow> bool settled \<times> 'w \<times> event list" where
  "handleConfirmPoint env s result w =
     (let confirmType' = or_else (confirmType s) ''default'' in
      if confirmType' = ''trends'' then
        (case get result ''output'' of
           Inl err \<Rightarrow> (Rejected err, w, [])
         | Inr out \<Rightarrow>
             (case get out ''trends'' of
                Inl err \<Rightarrow> (Rejected err, w, [])
              | Inr ts \<Rightarrow>
                  (let payload = (if truthy ts then ts else JArr []) in
                   case confirmTrends env payload w of
                     (Resolved trendsAction, w') \<Rightarrow>
                       (Resolved (trendsAction = Some ''continue''), w', [TrendsGate payload])
                   | (Rejected err, w') \<Rightarrow> (Rejected err, w', [TrendsGate payload])
                   | (Pending, w') \<Rightarrow> (Pending, w', [TrendsGate payload]))))
      else if confirmType' = ''suggestions'' then
        (case get result ''output'' of
           Inl err \<Rightarrow> (Rejected err, w, [])
         | Inr out \<Rightarrow>
             (case get out ''suggestions'' of
                Inl err \<Rightarrow> (Rejected err, w, [])
              | Inr sg \<Rightarrow>
                  (let payload = (if truthy sg then sg else JArr []) in
                   case confirmSuggestions env payload w of
                     (Resolved suggestionsResult, w') \<Rightarrow>
                       (Resolved (action suggestionsResult \<noteq> Some ''cancel''), w',
                        [SuggestionsGate payload])
                   | (Rejected err, w') \<Rightarrow> (Rejected err, w', [SuggestionsGate payload])
                   | (Pending, w') \<Rightarrow> (Pending, w', [SuggestionsGate payload]))))
      else
        (let q = or_else (confirmMessage s) default_confirm_message in
         case confirm_prompt env q True w of
           (r, w') \<Rightarrow> (r, w', [ConfirmGate q True])))"

text \<open>What \<open>run\<close> returns: one constructor for each of its four \<open>return\<close> statements.\<close>

datatype run_result =
    RunSuccess obj
  | RunPaused nat
  | RunCancelled
  | RunError string nat

fun success :: "run_result \<Rightarrow> bool" where
  "success (RunSuccess r) = True"
| "success other = False"

text \<open>How one turn of the loop in \<open>run\<close> ends: on to the next step with the new
  \<open>currentInput\<close>, a \<open>return\<close>, or an \<open>await\<close> that never comes back.\<close>

datatype iteration = Next obj | Return run_result | Blocked

definition set_status :: "string \<Rightarrow> 'w Pipeline \<Rightarrow> 'w Pipeline" where
  "set_status st p = p\<lparr>state := (state p)\<lparr>status := st\<rparr>\<rparr>"

definition step_key :: "step \<Rightarrow> string" where
  "step_key s = or_else (step_id s) (agent s)"

text \<open>The \<open>catch\<close> of the loop body.\<close>

definition on_error ::
  "nat \<Rightarrow> exn \<Rightarrow> 'w Pipeline \<Rightarrow> 'w \<Rightarrow> event list \<Rightarrow> iteration \<times> 'w Pipeline \<times> 'w \<times> event list" where
  "on_error i err p w evs = (Return (RunError (message err) i), set_status ''error'' p, w, evs)"

text \<open>\<open>this.state.results[step.id || step.agent] = result\<close>.\<close>

definition store_result :: "step \<Rightarrow> jsval \<Rightarrow> 'w Pipeline \<Rightarrow> 'w Pipeline" where
  "store_result s result p =
     p\<lparr>state := (state p)\<lparr>results := AList.update (step_key s) result (results (state p))\<rparr>\<rparr>"

text \<open>The body of the loop in \<open>run\<close>, for step \<open>s\<close> at index \<open>i\<close>.\<close>

definition run_step ::
  "'w env \<Rightarrow> nat \<Rightarrow> step \<Rightarrow> 'w Pipeline \<Rightarrow> obj \<Rightarrow> 'w
     \<Rightarrow> iteration \<times> 'w Pipeline \<times> 'w \<times> event list" where
  "run_step env i s p currentInput w =
     (case executeStep env (p\<lparr>state := (state p)\<lparr>currentStep := i\<rparr>\<rparr>) s (JObj currentInput) w of
        (Pending, p', w') \<Rightarrow> (Blocked, p', w', [Execute i (JObj currentInput) Pending])
      | (Rejected err, p', w') \<Rightarrow>
          on_error i err p' w' [Execute i (JObj currentInput) (Rejected err)]
      | (Resolved result, p', w') \<Rightarrow>
          (let ex = Execute i (JObj currentInput) (Resolved result) in
           case get result ''cancelled'' of
             Inl err \<Rightarrow> on_error i err p' w' [ex]
           | Inr cancelled \<Rightarrow>
               if truthy cancelled then (Return RunCancelled, set_status ''cancelled'' p', w', [ex])
               else
                 (let p'' = store_result s result p';
                      st = Stored i (step_key s) result
                  in case get result ''output'' of
                       Inl err \<Rightarrow> on_error i err p'' w' [ex, st]
                     | Inr out \<Rightarrow>
                         (let nextInput = spread (JObj currentInput) out in
                          if confirm s \<and> \<not> autoMode p'' then
                            (case handleConfirmPoint env s result w' of
                               (Pending, w'', evs) \<Rightarrow>
                                 (Blocked, p'', w'', [ex, st] @ evs @ [ConfirmPoint i Pending])
                             | (Rejected err, w'', evs) \<Rightarrow>
                                 on_error i err p'' w''
                                   ([ex, st] @ evs @ [ConfirmPoint i (Rejected err)])
                             | (Resolved shouldContinue, w'', evs) \<Rightarrow>
                                 if \<not> shouldContinue then
                                   (Return (RunPaused i), set_status ''paused'' p'', w'',
                                    [ex, st] @ evs @ [ConfirmPoint i (Resolved shouldContinue)])
                                 else
                                   (Next nextInput, p'', w'',
                                    [ex, st] @ evs @ [ConfirmPoint i (Resolved shouldContinue)]))
                          else (Next nextInput, p'', w', [ex, st])))))"

text \<open>The loop \<open>for (let i = 0; i < workflow.steps.length; i++)\<close>, from index \<open>i\<close> over the
  steps that remain, and the statements after it.\<close>

fun run_from ::
  "'w env \<Rightarrow> nat \<Rightarrow> step list \<Rightarrow> 'w Pipeline \<Rightarrow> obj \<Rightarrow> 'w
     \<Rightarrow> run_result settled \<times> 'w Pipeline \<times> 'w \<times> event list" where
  "run_from env i [] p currentInput w =
     (Resolved (RunSuccess (results (state p))), set_status ''completed'' p, w, [])"
| "run_from env i (s # ss) p currentInput w =
     (case run_step env i s p currentInput w of
        (Blocked, p', w', evs) \<Rightarrow> (Pending, p', w', evs)
      | (Return r, p', w', evs) \<Rightarrow> (Resolved r, p', w', evs)
      | (Next nextInput, p', w', evs) \<Rightarrow>
          (case run_from env (Suc i) ss p' nextInput w' of
             (r, p'', w'', evs') \<Rightarrow> (r, p'', w'', evs @ evs')))"

text \<open>\<open>run(input)\<close>: a failing \<open>loadWorkflow\<close> is outside the \<open>try\<close> and rejects the run.\<close>

definition run ::
  "'w env \<Rightarrow> 'w Pipeline \<Rightarrow> jsval \<Rightarrow> 'w \<Rightarrow> run_result settled \<times> 'w Pipeline \<times> 'w \<times> event list" where
  "run env p input w =
     (case loadWorkflow env (workflow p) of
        Inl err \<Rightarrow> (Rejected err, p, w, [])
      | Inr ss \<Rightarrow> run_from env 0 ss (set_status ''running'' p) (obj_assign [] input) w)"


section \<open>JSON text (JSON.stringify, JSON.parse)\<close>

text \<open>
  The two built-ins the checkpoint goes through, modelled on the values of this theory:
  \<open>JSON.stringify(value, null, 2)\<close> and \<open>JSON.parse\<close>.
\<close>

definition hex_digit :: "nat \<Rightarrow> char" where
  "hex_digit n = (if n < 10 then char_of (48 + n) else char_of (87 + n))"

definition quote_char :: "char \<Rightarrow> string" where
  "quote_char c =
     (if c = CHR 0x22 then [CHR 0x5C, CHR 0x22]
      else if c = CHR 0x5C then [CHR 0x5C, CHR 0x5C]
      else if c = CHR 0x08 then [CHR 0x5C, CHR ''b'']
      else if c = CHR 0x0C then [CHR 0x5C, CHR ''f'']
      else if c = CHR 0x0A then [CHR 0x5C, CHR ''n'']
      else if c = CHR 0x0D then [CHR 0x5C, CHR ''r'']
      else if c = CHR 0x09 then [CHR 0x5C, CHR ''t'']
      else if (of_char c :: nat) < 32 then
        [CHR 0x5C, CHR ''u'', CHR ''0'', CHR ''0'',
         hex_digit (of_char c div 16), hex_digit (of_char c mod 16)]
      else [c])"

definition QuoteJSONString :: "string \<Rightarrow> string" where
  "QuoteJSONString s = CHR 0x22 # concat (map quote_char s) @ [CHR 0x22]"





text \<open>\<open>JSON.parse\<close>\<close>

definition json_ws :: "char \<Rightarrow> bool" where
  "json_ws c = (c = CHR 0x20 \<or> c = CHR 0x09 \<or> c = CHR 0x0A \<or> c = CHR 0x0D)"














text \<open>What may follow the text of a number without being read as part of it.\<close>

definition ends_number :: "string \<Rightarrow> bool" where
  "ends_number r = (r = [] \<or> (\<not> is_digit (hd r) \<and> hd r \<noteq> CHR ''.'' \<and> hd r \<noteq> CHR ''e'' \<and> hd r \<noteq> CHR ''E''))"

section \<open>Files and the checkpoint (shared/lib/fileManager.js, saveState, loadState)\<close>










text \<open>
  \<open>loadState\<close> assigns whatever truthy value the document holds to \<open>this.state\<close>. A
  value that is not a run-state object does not fit the record the pipeline's state is
  modelled by: \<open>StateBecame\<close> reports it, and the model follows that pipeline no
  further.
\<close>

datatype 'w loaded = Loaded "'w Pipeline" | LoadThrew exn | StateBecame jsval


section \<open>Test doubles and sample runs\<close>

text \<open>
  Concrete collaborators on which the properties below are exercised. The world is the
  list of lines still to be typed at the terminal; an agent double ends every call the
  same way.
\<close>

definition terminal :: "string list \<Rightarrow> string option \<times> string list" where
  "terminal w = (case w of [] \<Rightarrow> (None, []) | answer # rest \<Rightarrow> (Some answer, rest))"

definition stub_agent :: "string \<Rightarrow> jsval settled \<Rightarrow> string list agent" where
  "stub_agent nm r = \<lparr>agent_name = nm, execute = (\<lambda>input options w. (r, w))\<rparr>"

definition ok_result :: "obj \<Rightarrow> jsval" where
  "ok_result out = JObj [(''success'', JBool True), (''message'', JStr ''done''), (''output'', JObj out)]"

definition failed_result :: jsval where
  "failed_result = JObj [(''success'', JBool False), (''message'', JStr ''no content'')]"


definition plain_step :: "string \<Rightarrow> step" where
  "plain_step a =
     \<lparr>agent = a, step_id = None, step_name = None, confirm = False, confirmType = None,
      confirmMessage = None, step_options = None, step_output = None\<rparr>"

definition gated_step :: "string \<Rightarrow> string \<Rightarrow> step" where
  "gated_step a kind = (plain_step a)\<lparr>confirm := True, confirmType := Some kind\<rparr>"

definition sample_env :: "(string \<times> string list agent) list \<Rightarrow> step list \<Rightarrow> string list env" where
  "sample_env modules ss =
     \<lparr>require = map_of modules,
      workflows = (\<lambda>n. if n = ''default'' then Some \<lparr>wf_name = ''default'', steps = Some ss\<rparr> else None),
      question = terminal\<rparr>"

definition sample_pipeline :: "bool \<Rightarrow> string list Pipeline" where
  "sample_pipeline auto =
     constructor \<lparr>opt_projectPath = Some ''projects/demo'', opt_workflow = None,
                  opt_auto = Some auto, opt_verbose = None\<rparr>"

definition research_output :: obj where
  "research_output = [(''trends'', JArr [JObj [(''name'', JStr ''AI'')]]), (''x'', JNum 1)]"

definition writer_output :: obj where
  "writer_output = [(''content'', JStr ''draft''), (''x'', JNum 2)]"

definition research_double :: "string list agent" where
  "research_double = stub_agent ''research_agent'' (Resolved (ok_result research_output))"

definition writer_double :: "string list agent" where
  "writer_double = stub_agent ''creative_writer_agent'' (Resolved (ok_result writer_output))"

definition sample_modules :: "(string \<times> string list agent) list" where
  "sample_modules =
     [(''../../agents/research_agent'', research_double),
      (''../../agents/creative_writer_agent'', writer_double),
      (''../../agents/rights_checker_agent'',
         stub_agent ''rights_checker_agent'' (Rejected (Error ''boom''))),
      (''../../agents/editor_agent'', stub_agent ''editor_agent'' (Resolved failed_result))]"

text \<open>Three steps that succeed, the last one naming an agent that is not registered.\<close>

definition quick_draft :: "step list" where
  "quick_draft =
     [gated_step ''research_agent'' ''trends'', plain_step ''creative_writer_agent'',
      plain_step ''publisher_agent'']"





text \<open>A step with a trends gate names an agent that is not registered.\<close>

definition publish_flow :: "step list" where
  "publish_flow = [gated_step ''publisher_agent'' ''trends'', plain_step ''creative_writer_agent'']"

text \<open>A sample run: the modules, the steps of the default workflow, the mode, and the
  lines typed at the terminal; it starts on the empty input.\<close>

definition sample_run ::
  "(string \<times> string list agent) list \<Rightarrow> step list \<Rightarrow> bool \<Rightarrow> string list
     \<Rightarrow> run_result settled \<times> string list Pipeline \<times> string list \<times> event list" where
  "sample_run modules ss auto lines =
     run (sample_env modules ss) (sample_pipeline auto) (JObj []) lines"

text \<open>The parts of what a run gives back: what it returned, the run-state it left, the
  calls it made.\<close>

abbreviation outcome :: "'a \<times> 'w Pipeline \<times> 'w \<times> event list \<Rightarrow> 'a" where
  "outcome R \<equiv> fst R"

abbreviation final_state :: "'a \<times> 'w Pipeline \<times> 'w \<times> event list \<Rightarrow> run_state" where
  "final_state R \<equiv> state (fst (snd R))"

abbreviation calls :: "'a \<times> 'w Pipeline \<times> 'w \<times> event list \<Rightarrow> event list" where
  "calls R \<equiv> snd (snd (snd R))"


section \<open>Properties of one step\<close>

lemma getAgent_fields:
  "getAgent env p nm = (a, p') \<Longrightarrow>
     state p' = state p \<and> autoMode p' = autoMode p \<and> projectPath p' = projectPath p \<and> workflow p' = workflow p"
  by (auto simp: getAgent_def Let_def split: option.splits)

lemma executeStep_fields:
  "executeStep env p s inp w = (r, p', w') \<Longrightarrow>
     state p' = state p \<and> autoMode p' = autoMode p \<and> projectPath p' = projectPath p \<and> workflow p' = workflow p"
  by (auto simp: executeStep_def split: prod.splits settled.splits sum.splits dest: getAgent_fields)

lemma executeStep_Resolved_get:
  "executeStep env p s inp w = (Resolved result, p', w') \<Longrightarrow> \<exists>v. get result k = Inr v"
  apply (auto simp: executeStep_def split: prod.splits settled.splits sum.splits)
  apply (cases result; simp)
  done

lemma handleConfirmPoint_calls:
  "handleConfirmPoint env s result w = (r, w', evs) \<Longrightarrow> \<forall>e\<in>set evs. gate_call e"
  by (auto simp: handleConfirmPoint_def Let_def split: prod.splits settled.splits sum.splits if_splits)

lemma handleConfirmPoint_events:
  assumes "handleConfirmPoint env s result w = (r, w', evs)"
  shows "Execute j c x \<notin> set evs" "Stored j k v \<notin> set evs" "ConfirmPoint j b \<notin> set evs"
    "e \<in> set evs \<Longrightarrow> event_step e = None" "e \<in> set evs \<Longrightarrow> is_gate e"
  using handleConfirmPoint_calls[OF assms] by (force, force, force, (cases e; force), (cases e; force))

lemma run_step_elim [consumes 1, case_names pending rejected cancelled plain gate_pending gate_rejected gate_declined gate_accepted]:
  assumes R: "run_step env i s p cur w = (it, p', w', evs)"
  obtains
    (pending) p0 where
      "executeStep env (p\<lparr>state := (state p)\<lparr>currentStep := i\<rparr>\<rparr>) s (JObj cur) w = (Pending, p0, w')"
      "it = Blocked" "p' = p0" "evs = [Execute i (JObj cur) Pending]"
  | (rejected) p0 err where
      "executeStep env (p\<lparr>state := (state p)\<lparr>currentStep := i\<rparr>\<rparr>) s (JObj cur) w = (Rejected err, p0, w')"
      "it = Return (RunError (message err) i)" "p' = set_status ''error'' p0"
      "evs = [Execute i (JObj cur) (Rejected err)]"
  | (cancelled) p0 result c where
      "executeStep env (p\<lparr>state := (state p)\<lparr>currentStep := i\<rparr>\<rparr>) s (JObj cur) w = (Resolved result, p0, w')"
      "get result ''cancelled'' = Inr c" "truthy c"
      "it = Return RunCancelled" "p' = set_status ''cancelled'' p0"
      "evs = [Execute i (JObj cur) (Resolved result)]"
  | (plain) p0 result c out where
      "executeStep env (p\<lparr>state := (state p)\<lparr>currentStep := i\<rparr>\<rparr>) s (JObj cur) w = (Resolved result, p0, w')"
      "get result ''cancelled'' = Inr c" "\<not> truthy c" "get result ''output'' = Inr out"
      "\<not> confirm s \<or> autoMode p"
      "it = Next (spread (JObj cur) out)" "p' = store_result s result p0"
      "evs = [Execute i (JObj cur) (Resolved result), Stored i (step_key s) result]"
  | (gate_pending) p0 w0 result c out calls where
      "executeStep env (p\<lparr>state := (state p)\<lparr>currentStep := i\<rparr>\<rparr>) s (JObj cur) w = (Resolved result, p0, w0)"
      "get result ''cancelled'' = Inr c" "\<not> truthy c" "get result ''output'' = Inr out"
      "confirm s" "\<not> autoMode p"
      "handleConfirmPoint env s result w0 = (Pending, w', calls)"
      "it = Blocked" "p' = store_result s result p0"
      "evs = [Execute i (JObj cur) (Resolved result), Stored i (step_key s) result] @ calls @ [ConfirmPoint i Pending]"
  | (gate_rejected) p0 w0 result c out calls err where
      "executeStep env (p\<lparr>state := (state p)\<lparr>currentStep := i\<rparr>\<rparr>) s (JObj cur) w = (Resolved result, p0, w0)"
      "get result ''cancelled'' = Inr c" "\<not> truthy c" "get result ''output'' = Inr out"
      "confirm s" "\<not> autoMode p"
      "handleConfirmPoint env s result w0 = (Rejected err, w', calls)"
      "it = Return (RunError (message err) i)" "p' = set_status ''error'' (store_result s result p0)"
      "evs = [Execute i (JObj cur) (Resolved result), Stored i (step_key s) result] @ calls @ [ConfirmPoint i (Rejected err)]"
  | (gate_declined) p0 w0 result c out calls where
      "executeStep env (p\<lparr>state := (state p)\<lparr>currentStep := i\<rparr>\<rparr>) s (JObj cur) w = (Resolved result, p0, w0)"
      "get result ''cancelled'' = Inr c" "\<not> truthy c" "get result ''output'' = Inr out"
      "confirm s" "\<not> autoMode p"
      "handleConfirmPoint env s result w0 = (Resolved False, w', calls)"
      "it = Return (RunPaused i)" "p' = set_status ''paused'' (store_result s result p0)"
      "evs = [Execute i (JObj cur) (Resolved result), Stored i (step_key s) result] @ calls @ [ConfirmPoint i (Resolved False)]"
  | (gate_accepted) p0 w0 result c out calls where
      "executeStep env (p\<lparr>state := (state p)\<lparr>currentStep := i\<rparr>\<rparr>) s (JObj cur) w = (Resolved result, p0, w0)"
      "get result ''cancelled'' = Inr c" "\<not> truthy c" "get result ''output'' = Inr out"
      "confirm s" "\<not> autoMode p"
      "handleConfirmPoint env s result w0 = (Resolved True, w', calls)"
      "it = Next (spread (JObj cur) out)" "p' = store_result s result p0"
      "evs = [Execute i (JObj cur) (Resolved result), Stored i (step_key s) result] @ calls @ [ConfirmPoint i (Resolved True)]"
proof -
  let ?E = "executeStep env (p\<lparr>state := (state p)\<lparr>currentStep := i\<rparr>\<rparr>) s (JObj cur) w"
  obtain r0 p0 w0 where ex: "?E = (r0, p0, w0)"
    by (cases ?E) auto
  note f = executeStep_fields[OF ex]
  show ?thesis
  proof (cases r0)
    case Pending
    with R ex have *: "?E = (Pending, p0, w')" "it = Blocked" "p' = p0"
        "evs = [Execute i (JObj cur) Pending]"
      by (auto simp: run_step_def)
    show ?thesis by (rule pending[OF *])
  next
    case (Rejected err)
    with R ex have *: "?E = (Rejected err, p0, w')" "it = Return (RunError (message err) i)"
        "p' = set_status ''error'' p0" "evs = [Execute i (JObj cur) (Rejected err)]"
      by (auto simp: run_step_def on_error_def)
    show ?thesis by (rule rejected[OF *])
  next
    case (Resolved result)
    note ex' = ex[unfolded Resolved]
    from executeStep_Resolved_get[OF ex']
    obtain c out where c: "get result ''cancelled'' = Inr c" and out: "get result ''output'' = Inr out"
      by metis
    show ?thesis
    proof (cases "truthy c")
      case True
      with R ex' c have *: "?E = (Resolved result, p0, w')" "it = Return RunCancelled"
          "p' = set_status ''cancelled'' p0" "evs = [Execute i (JObj cur) (Resolved result)]"
        by (auto simp: run_step_def)
      show ?thesis by (rule cancelled[OF *(1) c True *(2-4)])
    next
      case nc: False
      show ?thesis
      proof (cases "confirm s \<and> \<not> autoMode p")
        case False
        with R ex' c out nc f have *: "?E = (Resolved result, p0, w')"
            "it = Next (spread (JObj cur) out)" "p' = store_result s result p0"
            "evs = [Execute i (JObj cur) (Resolved result), Stored i (step_key s) result]"
          by (auto simp: run_step_def store_result_def)
        from False have g: "\<not> confirm s \<or> autoMode p" by simp
        show ?thesis by (rule plain[OF *(1) c nc out g *(2-4)])
      next
        case True
        then have cs: "confirm s" and na: "\<not> autoMode p" by simp_all
        obtain g w1 calls where h: "handleConfirmPoint env s result w0 = (g, w1, calls)"
          by (cases "handleConfirmPoint env s result w0") auto
        show ?thesis
        proof (cases g)
          case Pending
          with R ex' c out nc f True h have *: "w1 = w'" "it = Blocked" "p' = store_result s result p0"
              "evs = [Execute i (JObj cur) (Resolved result), Stored i (step_key s) result] @ calls
                     @ [ConfirmPoint i Pending]"
            by (auto simp: run_step_def store_result_def)
          show ?thesis
            by (rule gate_pending[OF ex' c nc out cs na h[unfolded Pending *(1)] *(2-4)])
        next
          case (Rejected err)
          with R ex' c out nc f True h have *: "w1 = w'" "it = Return (RunError (message err) i)"
              "p' = set_status ''error'' (store_result s result p0)"
              "evs = [Execute i (JObj cur) (Resolved result), Stored i (step_key s) result] @ calls
                     @ [ConfirmPoint i (Rejected err)]"
            by (auto simp: run_step_def store_result_def on_error_def)
          show ?thesis
            by (rule gate_rejected[OF ex' c nc out cs na h[unfolded Rejected *(1)] *(2-4)])
        next
          case (Resolved b)
          show ?thesis
          proof (cases b)
            case bt: True
            with R ex' Resolved c out nc f True h have *: "w1 = w'"
                "it = Next (spread (JObj cur) out)" "p' = store_result s result p0"
                "evs = [Execute i (JObj cur) (Resolved result), Stored i (step_key s) result] @ calls
                       @ [ConfirmPoint i (Resolved True)]"
              by (auto simp: run_step_def store_result_def)
            from h Resolved bt * have h': "handleConfirmPoint env s result w0 = (Resolved True, w', calls)"
              by simp
            show ?thesis
              by (rule gate_accepted[OF ex' c nc out cs na h' *(2-4)])
          next
            case bf: False
            with R ex' Resolved c out nc f True h have *: "w1 = w'"
                "it = Return (RunPaused i)" "p' = set_status ''paused'' (store_result s result p0)"
                "evs = [Execute i (JObj cur) (Resolved result), Stored i (step_key s) result] @ calls
                       @ [ConfirmPoint i (Resolved False)]"
              by (auto simp: run_step_def store_result_def)
            from h Resolved bf * have h': "handleConfirmPoint env s result w0 = (Resolved False, w', calls)"
              by simp
            show ?thesis
              by (rule gate_declined[OF ex' c nc out cs na h' *(2-4)])
          qed
        qed
      qed
    qed
  qed
qed


lemma store_result_fields [simp]:
  "autoMode (store_result s r p) = autoMode p"
  "agents (store_result s r p) = agents p"
  "results (state (store_result s r p)) = AList.update (step_key s) r (results (state p))"
  "status (state (store_result s r p)) = status (state p)"
  by (simp_all add: store_result_def)

lemma set_status_fields [simp]:
  "autoMode (set_status st p) = autoMode p"
  "agents (set_status st p) = agents p"
  "results (state (set_status st p)) = results (state p)"
  "status (state (set_status st p)) = st"
  by (simp_all add: set_status_def)

lemma run_step_autoMode:
  "run_step env i s p cur w = (it, p', w', evs) \<Longrightarrow> autoMode p' = autoMode p"
  by (cases rule: run_step_elim) (auto dest!: executeStep_fields)

lemma run_step_event_step:
  "run_step env i s p cur w = (it, p', w', evs) \<Longrightarrow> e \<in> set evs \<Longrightarrow> event_step e = Some j \<Longrightarrow> j = i"
  by (cases rule: run_step_elim) (auto simp: handleConfirmPoint_events)

lemma run_step_Execute:
  "run_step env i s p cur w = (it, p', w', evs) \<Longrightarrow>
     \<exists>r. Execute i (JObj cur) r \<in> set evs \<and> (\<forall>j c r'. Execute j c r' \<in> set evs \<longrightarrow> j = i \<and> c = JObj cur \<and> r' = r)"
  by (cases rule: run_step_elim) (auto simp: handleConfirmPoint_events)

lemma run_step_results:
  "run_step env i s p cur w = (it, p', w', evs) \<Longrightarrow>
     (\<exists>result. Stored i (step_key s) result \<in> set evs \<and> Execute i (JObj cur) (Resolved result) \<in> set evs
        \<and> results (state p') = AList.update (step_key s) result (results (state p))
        \<and> (\<forall>j k v. Stored j k v \<in> set evs \<longrightarrow> j = i \<and> k = step_key s \<and> v = result))
   \<or> (results (state p') = results (state p) \<and> (\<forall>j k v. Stored j k v \<notin> set evs) \<and> (\<forall>nxt. it \<noteq> Next nxt))"
  by (cases rule: run_step_elim) (auto simp: handleConfirmPoint_events dest!: executeStep_fields)

lemma run_step_Next:
  "run_step env i s p cur w = (Next nxt, p', w', evs) \<Longrightarrow>
     \<exists>result c out. Execute i (JObj cur) (Resolved result) \<in> set evs
       \<and> Stored i (step_key s) result \<in> set evs
       \<and> get result ''cancelled'' = Inr c \<and> \<not> truthy c
       \<and> get result ''output'' = Inr out \<and> nxt = spread (JObj cur) out
       \<and> results (state p') = AList.update (step_key s) result (results (state p))
       \<and> status (state p') = status (state p)
       \<and> (confirm s \<and> \<not> autoMode p \<longrightarrow> ConfirmPoint i (Resolved True) \<in> set evs)"
  by (cases rule: run_step_elim) (auto dest!: executeStep_fields)




lemma run_step_auto:
  "run_step env i s p cur w = (it, p', w', evs) \<Longrightarrow> autoMode p \<Longrightarrow> \<forall>e\<in>set evs. \<not> is_gate e"
  by (cases rule: run_step_elim) auto


section \<open>Properties of the loop\<close>

lemma run_from_Cons_cases:
  assumes "run_from env i (s # ss) p cur w = (r, p', w', tr)"
  obtains
    (blocked) "run_step env i s p cur w = (Blocked, p', w', tr)" "r = Pending"
  | (returned) rr where "run_step env i s p cur w = (Return rr, p', w', tr)" "r = Resolved rr"
  | (continued) nxt p1 w1 evs tr' where "run_step env i s p cur w = (Next nxt, p1, w1, evs)"
      "run_from env (Suc i) ss p1 nxt w1 = (r, p', w', tr')" "tr = evs @ tr'"
proof -
  obtain it p1 w1 evs where rs: "run_step env i s p cur w = (it, p1, w1, evs)"
    by (cases "run_step env i s p cur w") auto
  show ?thesis
  proof (cases it)
    case Blocked
    with assms rs show ?thesis by (intro blocked) auto
  next
    case (Return rr)
    with assms rs show ?thesis by (intro returned[of rr]) auto
  next
    case (Next nxt)
    obtain r2 p2 w2 tr2 where rf: "run_from env (Suc i) ss p1 nxt w1 = (r2, p2, w2, tr2)"
      by (cases "run_from env (Suc i) ss p1 nxt w1") auto
    with assms rs Next have "r2 = r" "p2 = p'" "w2 = w'" "tr = evs @ tr2" by auto
    with rs Next rf show ?thesis by (intro continued[of nxt p1 w1 evs tr2]) auto
  qed
qed

lemma run_from_autoMode:
  "run_from env i ss p cur w = (r, p', w', tr) \<Longrightarrow> autoMode p' = autoMode p"
proof (induction ss arbitrary: i p cur w tr)
  case Nil
  then show ?case by auto
next
  case (Cons s ss)
  from Cons.prems show ?case
  proof (cases rule: run_from_Cons_cases)
    case blocked
    then show ?thesis by (simp add: run_step_autoMode)
  next
    case (returned rr)
    then show ?thesis by (simp add: run_step_autoMode)
  next
    case (continued nxt p1 w1 evs tr')
    with Cons.IH[OF continued(2)] show ?thesis by (simp add: run_step_autoMode)
  qed
qed

lemma run_from_event_bounds:
  "run_from env i ss p cur w = (r, p', w', tr) \<Longrightarrow> e \<in> set tr \<Longrightarrow> event_step e = Some j
     \<Longrightarrow> i \<le> j \<and> j < i + length ss"
proof (induction ss arbitrary: i p cur w tr)
  case Nil
  then show ?case by auto
next
  case (Cons s ss)
  from Cons.prems(1) show ?case
  proof (cases rule: run_from_Cons_cases)
    case blocked
    with Cons.prems run_step_event_step[OF blocked(1)] show ?thesis by auto
  next
    case (returned rr)
    with Cons.prems run_step_event_step[OF returned(1)] show ?thesis by auto
  next
    case (continued nxt p1 w1 evs tr')
    with Cons.prems have "e \<in> set evs \<or> e \<in> set tr'" by auto
    then show ?thesis
    proof
      assume "e \<in> set evs"
      with run_step_event_step[OF continued(1)] Cons.prems show ?thesis by auto
    next
      assume "e \<in> set tr'"
      with Cons.IH[OF continued(2) _ Cons.prems(3)] show ?thesis by auto
    qed
  qed
qed


lemma run_step_keys:
  "run_step env i s p cur w = (Next nxt, p1, w1, evs) \<Longrightarrow>
     fst ` set (results (state p1)) = insert (step_key s) (fst ` set (results (state p)))"
proof -
  assume "run_step env i s p cur w = (Next nxt, p1, w1, evs)"
  from run_step_Next[OF this] obtain result where
    "results (state p1) = AList.update (step_key s) result (results (state p))" by blast
  then show ?thesis by (simp add: AList.dom_update)
qed

lemma run_from_reach:
  assumes "run_from env i ss p cur w = (r, p', w', tr)" "e \<in> set tr" "event_step e = Some k"
  shows "\<exists>pre pk ck wk it p1 w1 evs post.
      i \<le> k \<and> k - i < length ss
    \<and> run_step env k (ss ! (k - i)) pk ck wk = (it, p1, w1, evs)
    \<and> e \<in> set evs \<and> tr = pre @ evs @ post
    \<and> (\<forall>x\<in>set pre. \<forall>j. event_step x = Some j \<longrightarrow> j < k)
    \<and> (\<forall>x\<in>set post. \<forall>j. event_step x = Some j \<longrightarrow> k < j)
    \<and> fst ` set (results (state pk)) = fst ` set (results (state p)) \<union> step_key ` set (take (k - i) ss)
    \<and> autoMode pk = autoMode p
    \<and> (case it of
          Next nxt \<Rightarrow> run_from env (Suc k) (drop (Suc (k - i)) ss) p1 nxt w1 = (r, p', w', post)
        | Return rr \<Rightarrow> r = Resolved rr \<and> p' = p1 \<and> w' = w1 \<and> post = []
        | Blocked \<Rightarrow> r = Pending \<and> p' = p1 \<and> w' = w1 \<and> post = [])"
  using assms
proof (induction ss arbitrary: i p cur w tr)
  case Nil
  then show ?case by auto
next
  case (Cons s ss)
  let ?G = "\<lambda>pre pk ck wk it p1 w1 evs post.
      i \<le> k \<and> k - i < length (s # ss)
    \<and> run_step env k ((s # ss) ! (k - i)) pk ck wk = (it, p1, w1, evs)
    \<and> e \<in> set evs \<and> tr = pre @ evs @ post
    \<and> (\<forall>x\<in>set pre. \<forall>j. event_step x = Some j \<longrightarrow> j < k)
    \<and> (\<forall>x\<in>set post. \<forall>j. event_step x = Some j \<longrightarrow> k < j)
    \<and> fst ` set (results (state pk)) = fst ` set (results (state p)) \<union> step_key ` set (take (k - i) (s # ss))
    \<and> autoMode pk = autoMode p
    \<and> (case it of
          Next nxt \<Rightarrow> run_from env (Suc k) (drop (Suc (k - i)) (s # ss)) p1 nxt w1 = (r, p', w', post)
        | Return rr \<Rightarrow> r = Resolved rr \<and> p' = p1 \<and> w' = w1 \<and> post = []
        | Blocked \<Rightarrow> r = Pending \<and> p' = p1 \<and> w' = w1 \<and> post = [])"
  from Cons.prems(1) show ?case
  proof (cases rule: run_from_Cons_cases)
    case blocked
    with Cons.prems run_step_event_step[OF blocked(1)] have "k = i" by auto
    with blocked Cons.prems have H: "?G [] p cur w Blocked p' w' tr []" by simp
    show ?thesis by (intro exI, rule H)
  next
    case (returned rr)
    with Cons.prems run_step_event_step[OF returned(1)] have "k = i" by auto
    with returned Cons.prems have H: "?G [] p cur w (Return rr) p' w' tr []" by simp
    show ?thesis by (intro exI, rule H)
  next
    case (continued nxt p1 w1 evs tr')
    from continued Cons.prems have "e \<in> set evs \<or> e \<in> set tr'" by auto
    then show ?thesis
    proof
      assume in_evs: "e \<in> set evs"
      with Cons.prems run_step_event_step[OF continued(1)] have k: "k = i" by auto
      have "\<forall>x\<in>set tr'. \<forall>j. event_step x = Some j \<longrightarrow> i < j"
        using run_from_event_bounds[OF continued(2)] by fastforce
      with k continued in_evs have H: "?G [] p cur w (Next nxt) p1 w1 evs tr'" by simp
      show ?thesis by (intro exI, rule H)
    next
      assume in_tr': "e \<in> set tr'"
      from run_from_event_bounds[OF continued(2) in_tr' Cons.prems(3)]
      have k: "Suc i \<le> k" "k < Suc i + length ss" by auto
      from Cons.IH[OF continued(2) in_tr' Cons.prems(3)]
      obtain pre pk ck wk it p2 w2 evs2 post where
        ih: "run_step env k (ss ! (k - Suc i)) pk ck wk = (it, p2, w2, evs2)"
          "e \<in> set evs2" "tr' = pre @ evs2 @ post"
          "\<forall>x\<in>set pre. \<forall>j. event_step x = Some j \<longrightarrow> j < k"
          "\<forall>x\<in>set post. \<forall>j. event_step x = Some j \<longrightarrow> k < j"
          "fst ` set (results (state pk)) = fst ` set (results (state p1)) \<union> step_key ` set (take (k - Suc i) ss)"
          "autoMode pk = autoMode p1"
          "(case it of
              Next nxt \<Rightarrow> run_from env (Suc k) (drop (Suc (k - Suc i)) ss) p2 nxt w2 = (r, p', w', post)
            | Return rr \<Rightarrow> r = Resolved rr \<and> p' = p2 \<and> w' = w2 \<and> post = []
            | Blocked \<Rightarrow> r = Pending \<and> p' = p2 \<and> w' = w2 \<and> post = [])"
        by (elim exE conjE) (erule that; assumption)
      from k have idx: "k - i = Suc (k - Suc i)" by arith
      have pre_evs: "\<forall>x\<in>set (evs @ pre). \<forall>j. event_step x = Some j \<longrightarrow> j < k"
        using ih(4) run_step_event_step[OF continued(1)] k by auto
      have keys: "fst ` set (results (state pk))
                  = fst ` set (results (state p)) \<union> step_key ` set (take (k - i) (s # ss))"
        using ih(6) run_step_keys[OF continued(1)] idx by auto
      have am: "autoMode pk = autoMode p"
        using ih(7) run_step_autoMode[OF continued(1)] by simp
      have len: "k - Suc i < length ss" "k - i < length (s # ss)" "i \<le> k" using k by auto
      have dr: "drop (Suc (k - i)) (s # ss) = drop (Suc (k - Suc i)) ss"
        and nth: "(s # ss) ! (k - i) = ss ! (k - Suc i)"
        by (simp_all add: idx)
      have tr: "tr = (evs @ pre) @ evs2 @ post" using continued(3) ih(3) by simp
      have H: "?G (evs @ pre) pk ck wk it p2 w2 evs2 post"
        unfolding dr nth using len(2,3) ih(1,2,5,8) pre_evs keys am tr by blast
      show ?thesis by (intro exI, rule H)
    qed
  qed
qed

lemma run_unfold:
  assumes "loadWorkflow env (workflow p) = Inr ss"
  shows "run env p input w = run_from env 0 ss (set_status ''running'' p) (obj_assign [] input) w"
  using assms by (simp add: run_def)

lemma run_from_reachE:
  assumes "run_from env i ss p cur w = (r, p', w', tr)" "e \<in> set tr" "event_step e = Some k"
  obtains pre pk ck wk it p1 w1 evs post where
    "i \<le> k" "k - i < length ss"
    "run_step env k (ss ! (k - i)) pk ck wk = (it, p1, w1, evs)"
    "e \<in> set evs" "tr = pre @ evs @ post"
    "\<forall>x\<in>set pre. \<forall>j. event_step x = Some j \<longrightarrow> j < k"
    "\<forall>x\<in>set post. \<forall>j. event_step x = Some j \<longrightarrow> k < j"
    "fst ` set (results (state pk)) = fst ` set (results (state p)) \<union> step_key ` set (take (k - i) ss)"
    "autoMode pk = autoMode p"
    "case it of
       Next nxt \<Rightarrow> run_from env (Suc k) (drop (Suc (k - i)) ss) p1 nxt w1 = (r, p', w', post)
     | Return rr \<Rightarrow> r = Resolved rr \<and> p' = p1 \<and> w' = w1 \<and> post = []
     | Blocked \<Rightarrow> r = Pending \<and> p' = p1 \<and> w' = w1 \<and> post = []"
proof -
  show thesis
    using run_from_reach[OF assms] by (elim exE conjE) (rule that; assumption)
qed

lemma run_from_auto:
  "run_from env i ss p cur w = (r, p', w', tr) \<Longrightarrow> autoMode p \<Longrightarrow> \<forall>e\<in>set tr. \<not> is_gate e"
proof (induction ss arbitrary: i p cur w tr)
  case Nil
  then show ?case by auto
next
  case (Cons s ss)
  from Cons.prems(1) show ?case
  proof (cases rule: run_from_Cons_cases)
    case blocked
    from run_step_auto[OF blocked(1) Cons.prems(2)] show ?thesis .
  next
    case (returned rr)
    from run_step_auto[OF returned(1) Cons.prems(2)] show ?thesis .
  next
    case (continued nxt p1 w1 evs tr')
    from run_step_autoMode[OF continued(1)] Cons.prems(2) have "autoMode p1" by simp
    from Cons.IH[OF continued(2) this] run_step_auto[OF continued(1) Cons.prems(2)] continued(3)
    show ?thesis by auto
  qed
qed






section \<open>Accretion of the shared input\<close>

lemma fold_update_distinct:
  "distinct (map fst ps) \<Longrightarrow>
     map_of (fold (\<lambda>(k, v). AList.update k v) ps t) = map_of t ++ map_of ps"
proof (induction ps arbitrary: t)
  case Nil
  then show ?case by simp
next
  case (Cons kv ps)
  obtain k v where kv: "kv = (k, v)" by (cases kv)
  from Cons.prems kv have nk: "k \<notin> fst ` set ps" and d: "distinct (map fst ps)" by auto
  from nk have "map_of ps k = None" by (simp add: map_of_eq_None_iff)
  then have sw: "(map_of t)(k \<mapsto> v) ++ map_of ps = map_of t ++ (map_of ps)(k \<mapsto> v)"
    by (auto simp: map_add_def fun_eq_iff split: option.splits)
  have "map_of (fold (\<lambda>(k, v). AList.update k v) (kv # ps) t)
          = map_of (fold (\<lambda>(k, v). AList.update k v) ps (AList.update k v t))"
    by (simp add: kv)
  also have "\<dots> = map_of (AList.update k v t) ++ map_of ps" by (rule Cons.IH[OF d])
  also have "\<dots> = (map_of t)(k \<mapsto> v) ++ map_of ps" by (simp only: AList.update_conv')
  also have "\<dots> = map_of t ++ (map_of ps)(k \<mapsto> v)" by (rule sw)
  also have "\<dots> = map_of t ++ map_of (kv # ps)" by (simp only: kv map_of.simps fst_conv snd_conv)
  finally show ?case .
qed

lemma map_of_obj_assign:
  "map_of (obj_assign t src) = map_of t ++ map_of (own_props src)"
  by (simp add: obj_assign_def fold_update_distinct AList.distinct_clearjunk AList.map_of_clearjunk)

lemma map_of_spread:
  "map_of (spread a b) = map_of (own_props a) ++ map_of (own_props b)"
  by (simp add: spread_def map_of_obj_assign)

lemma map_of_spread_obj:
  "map_of (spread (JObj cur) out) = map_of cur ++ map_of (own_props out)"
  by (simp add: map_of_spread)

lemma run_from_head_input:
  "run_from env i ss p cur w = (r, p', w', tr) \<Longrightarrow> Execute i c x \<in> set tr \<Longrightarrow> c = JObj cur"
proof (cases ss)
  case Nil
  assume "run_from env i ss p cur w = (r, p', w', tr)" "Execute i c x \<in> set tr"
  with Nil show ?thesis by simp
next
  case (Cons s rest)
  assume rf: "run_from env i ss p cur w = (r, p', w', tr)" and ev: "Execute i c x \<in> set tr"
  from rf[unfolded Cons] show ?thesis
  proof (cases rule: run_from_Cons_cases)
    case blocked
    with run_step_Execute[OF blocked(1)] ev show ?thesis by blast
  next
    case (returned rr)
    with run_step_Execute[OF returned(1)] ev show ?thesis by blast
  next
    case (continued nxt p1 w1 evs tr')
    from run_from_event_bounds[OF continued(2), of "Execute i c x" i]
    have "Execute i c x \<notin> set tr'" by auto
    with ev continued(3) have "Execute i c x \<in> set evs" by simp
    with run_step_Execute[OF continued(1)] show ?thesis by blast
  qed
qed

lemma run_from_unwritten:
  assumes "run_from env i ss p cur w = (r, p', w', tr)"
    and "Execute c cc xc \<in> set tr"
    and "\<forall>j cj rj oj. j < c \<and> Execute j cj (Resolved rj) \<in> set tr \<and> get rj ''output'' = Inr oj
           \<longrightarrow> key \<notin> fst ` set (own_props oj)"
  shows "\<exists>cur'. cc = JObj cur' \<and> map_of cur' key = map_of cur key"
  using assms
proof (induction ss arbitrary: i p cur w tr)
  case Nil
  then show ?case by simp
next
  case (Cons s ss)
  from Cons.prems(1) show ?case
  proof (cases rule: run_from_Cons_cases)
    case blocked
    with run_step_Execute[OF blocked(1)] Cons.prems(2) show ?thesis by blast
  next
    case (returned rr)
    with run_step_Execute[OF returned(1)] Cons.prems(2) show ?thesis by blast
  next
    case (continued nxt p1 w1 evs tr')
    from Cons.prems(2) continued(3) have "Execute c cc xc \<in> set evs \<or> Execute c cc xc \<in> set tr'"
      by auto
    then show ?thesis
    proof
      assume "Execute c cc xc \<in> set evs"
      with run_step_Execute[OF continued(1)] show ?thesis by blast
    next
      assume in_tr': "Execute c cc xc \<in> set tr'"
      from run_from_event_bounds[OF continued(2) in_tr'] have ic: "i < c" by simp
      from run_step_Next[OF continued(1)] obtain result out where
        n: "Execute i (JObj cur) (Resolved result) \<in> set evs" "get result ''output'' = Inr out"
           "nxt = spread (JObj cur) out"
        by blast
      from n(1) continued(3) have "Execute i (JObj cur) (Resolved result) \<in> set tr" by simp
      with Cons.prems(3) ic n(2) have "key \<notin> fst ` set (own_props out)" by blast
      then have "map_of (own_props out) key = None" by (simp add: map_of_eq_None_iff)
      with n(3) have same: "map_of nxt key = map_of cur key"
        by (simp add: map_of_spread_obj map_add_def)
      have sub: "\<forall>j cj rj oj. j < c \<and> Execute j cj (Resolved rj) \<in> set tr' \<and> get rj ''output'' = Inr oj
           \<longrightarrow> key \<notin> fst ` set (own_props oj)"
        using Cons.prems(3) unfolding continued(3) set_append by blast
      from Cons.IH[OF continued(2) in_tr' sub] same show ?thesis by simp
    qed
  qed
qed


lemma run_from_first:
  "run_from env i ss p cur w = (r, p', w', tr) \<Longrightarrow> ss \<noteq> [] \<Longrightarrow> \<exists>x. Execute i (JObj cur) x \<in> set tr"
proof (cases ss)
  case Nil
  assume "ss \<noteq> []"
  with Nil show ?thesis by simp
next
  case (Cons s rest)
  assume rf: "run_from env i ss p cur w = (r, p', w', tr)"
  from rf[unfolded Cons] show ?thesis
  proof (cases rule: run_from_Cons_cases)
    case blocked
    with run_step_Execute[OF blocked(1)] show ?thesis by blast
  next
    case (returned rr)
    with run_step_Execute[OF returned(1)] show ?thesis by blast
  next
    case (continued nxt p1 w1 evs tr')
    with run_step_Execute[OF continued(1)] show ?thesis by auto
  qed
qed

lemma run_from_step_then_later:
  assumes rf: "run_from env i0 ss p cur0 w = (r, p', w', tr)"
    and e1: "Execute i (JObj cur) (Resolved result) \<in> set tr"
    and e2: "Execute j nxt x \<in> set tr"
    and ij: "i < j"
  shows "\<exists>out rest p1 w1 post.
           get result ''output'' = Inr out
         \<and> run_from env (Suc i) rest p1 (spread (JObj cur) out) w1 = (r, p', w', post)
         \<and> Execute j nxt x \<in> set post \<and> set post \<subseteq> set tr
         \<and> (\<forall>e\<in>set post. \<forall>m. event_step e = Some m \<longrightarrow> i < m)"
proof -
  have es: "event_step (Execute i (JObj cur) (Resolved result)) = Some i" by simp
  from rf e1 es obtain pre pk ck wk it p1 w1 evs post where
    h: "run_step env i (ss ! (i - i0)) pk ck wk = (it, p1, w1, evs)"
       "Execute i (JObj cur) (Resolved result) \<in> set evs" "tr = pre @ evs @ post"
       "\<forall>x\<in>set pre. \<forall>j. event_step x = Some j \<longrightarrow> j < i"
       "\<forall>x\<in>set post. \<forall>j. event_step x = Some j \<longrightarrow> i < j"
       "(case it of
          Next nxt \<Rightarrow> run_from env (Suc i) (drop (Suc (i - i0)) ss) p1 nxt w1 = (r, p', w', post)
        | Return rr \<Rightarrow> r = Resolved rr \<and> p' = p1 \<and> w' = w1 \<and> post = []
        | Blocked \<Rightarrow> r = Pending \<and> p' = p1 \<and> w' = w1 \<and> post = [])"
    by (rule run_from_reachE)
  have "Execute j nxt x \<notin> set pre" using h(4) ij by fastforce
  moreover have "Execute j nxt x \<notin> set evs" using run_step_event_step[OF h(1), of "Execute j nxt x" j] ij by auto
  ultimately have inpost: "Execute j nxt x \<in> set post" using e2 h(3) by auto
  then have "post \<noteq> []" by auto
  with h(6) obtain n' where it: "it = Next n'"
    and rf': "run_from env (Suc i) (drop (Suc (i - i0)) ss) p1 n' w1 = (r, p', w', post)"
    by (cases it) auto
  from run_step_Next[OF h(1)[unfolded it]] obtain result' out where
    n: "Execute i (JObj ck) (Resolved result') \<in> set evs" "get result' ''output'' = Inr out"
       "n' = spread (JObj ck) out"
    by blast
  from run_step_Execute[OF h(1)] h(2) n(1) have "ck = cur" "result' = result" by blast+
  with n rf' inpost h(3,5) show ?thesis by auto
qed

section \<open>Agent resolution and the mock agent\<close>

lemma getAgent_unregistered:
  assumes "agents p nm = None"
    and "agentPaths nm = None \<or> (\<exists>path. agentPaths nm = Some path \<and> require env path = None)"
  shows "getAgent env p nm = (createMockAgent nm, p\<lparr>agents := (agents p)(nm \<mapsto> createMockAgent nm)\<rparr>)"
  using assms by (auto simp: getAgent_def Let_def)

lemma getAgent_cached:
  "getAgent env p nm = (a, p') \<Longrightarrow> agents p' nm = Some a \<and> getAgent env p' nm = (a, p')"
  by (auto simp: getAgent_def Let_def split: option.splits)

lemma mock_execute:
  "execute (createMockAgent nm) input options w
     = (Resolved (JObj [(''success'', JBool True), (''mock'', JBool True),
                        (''input'', input), (''options'', options)]), w)"
  by (simp add: createMockAgent_def)

lemma mock_result_has_no_output:
  "execute (createMockAgent nm) input options w = (Resolved result, w') \<Longrightarrow>
     get result ''output'' = Inr JUndefined \<and> get result ''success'' = Inr (JBool True)
     \<and> get result ''mock'' = Inr (JBool True) \<and> get result ''input'' = Inr input
     \<and> get result ''options'' = Inr options"
  by (auto simp: createMockAgent_def)

section \<open>The confirmation gates\<close>








section \<open>The round trip through JSON text\<close>

declare show_nat.simps [simp del]






















lemma parse_chars_QuoteJSONString:
  "QuoteJSONString s @ rest = CHR 0x22 # concat (map quote_char s) @ CHR 0x22 # rest"
  by (simp add: QuoteJSONString_def)




lemma ends_number_simps [simp]:
  "ends_number (CHR 0x0A # r)" "ends_number (CHR '','' # r)" "ends_number []"
  by (simp_all add: ends_number_def is_digit_def)

lemma json_ws_simps [simp]:
  "json_ws (CHR 0x0A)" "json_ws (CHR '' '')" "\<not> json_ws (CHR '','')" "\<not> json_ws (CHR '']'')"
  "\<not> json_ws (CHR ''}'')" "\<not> json_ws (CHR 0x22)" "\<not> json_ws (CHR '':'')" "\<not> json_ws (CHR ''['')"
  "\<not> json_ws (CHR ''{'')"
  by (simp_all add: json_ws_def)











section \<open>The checkpoint\<close>





section \<open>The claims\<close>










text \<open>
  C5. An agent name that is not registered (or whose module fails to load) never makes
  agent resolution raise: \<open>getAgent\<close> substitutes the mock agent (lemmas
  \<open>getAgent_unregistered\<close>, \<open>mock_execute\<close>). But a run can still fail solely because the
  agent is unknown. The mock's result \<open>{success: true, mock: true, input, options}\<close> has
  no \<open>output\<close>, and a trends or suggestions gate reads \<open>result.output.trends\<close>: in this
  interactive run of a workflow whose gated first step names \<open>publisher_agent\<close>, the
  read throws, and the run ends with status \<open>error\<close> at step 0. The same workflow in
  auto mode completes.
\<close>

theorem unknown_agent_fails_at_list_gate:
  "agentPaths ''publisher_agent'' = None
   \<and> outcome (sample_run sample_modules publish_flow False [''1''])
       = Resolved (RunError (message (cannot_read JUndefined ''trends'')) 0)
   \<and> status (final_state (sample_run sample_modules publish_flow False [''1''])) = ''error''
   \<and> map event_step (calls (sample_run sample_modules publish_flow False [''1'']))
       = [Some 0, Some 0, Some 0]
   \<and> status (final_state (sample_run sample_modules publish_flow True [''1''])) = ''completed''"
  by code_simp

text \<open>
  C6. In auto mode no confirmation gate is invoked during a run, whatever the steps'
  \<open>confirm\<close> and \<open>confirmType\<close>: the calls the run makes contain no confirmation point and
  no call to a prompter function.
\<close>

theorem auto_mode_skips_gates:
  assumes "autoMode p" and "run env p input w = (r, p', w', tr)"
  shows "\<forall>e\<in>set tr. \<not> is_gate e"
proof (cases "loadWorkflow env (workflow p)")
  case (Inl err)
  with assms(2) show ?thesis by (simp add: run_def)
next
  case (Inr ss)
  with assms(2) have "run_from env 0 ss (set_status ''running'' p) (obj_assign [] input) w = (r, p', w', tr)"
    by (simp add: run_unfold)
  from run_from_auto[OF this] assms(1) show ?thesis by simp
qed

theorem auto_mode_skips_gates_witness:
  "autoMode (sample_pipeline True) \<and> confirm (quick_draft ! 0)
   \<and> filter is_gate (calls (sample_run sample_modules quick_draft True [])) = []
   \<and> length (calls (sample_run sample_modules quick_draft True [])) = 6"
proof -
  let ?R = "sample_run sample_modules quick_draft True []"
  have a: "autoMode (sample_pipeline True)" by code_simp
  have run: "run (sample_env sample_modules quick_draft) (sample_pipeline True) (JObj []) []
               = (fst ?R, fst (snd ?R), fst (snd (snd ?R)), snd (snd (snd ?R)))"
    by (simp add: sample_run_def)
  have c: "confirm (quick_draft ! 0)" by code_simp
  have l: "length (calls ?R) = 6" by code_simp
  from auto_mode_skips_gates[OF a run] have "filter is_gate (calls ?R) = []"
    by (simp add: filter_empty_conv)
  with a c l show ?thesis by simp
qed

text \<open>
  C7. The input handed to the next step is the current input with the own properties
  of the step's \<open>result.output\<close> copied over it: keys the output does not have keep
  their values, keys it has are overwritten (nothing is copied when there is no
  output). Hence the last writer wins: if step \<open>b\<close> wrote \<open>key: v\<close> and no step between
  \<open>b\<close> and a later step \<open>c\<close> wrote \<open>key\<close>, the input of step \<open>c\<close> has \<open>key: v\<close>, whatever
  earlier steps wrote.
\<close>

theorem outputs_accrete_last_writer_wins:
  assumes run: "run env p input w = (r, p', w', tr)"
  shows "(\<forall>i cur result nxt x.
            Execute i (JObj cur) (Resolved result) \<in> set tr \<and> Execute (Suc i) nxt x \<in> set tr
            \<longrightarrow> (\<exists>out. get result ''output'' = Inr out
                    \<and> nxt = JObj (spread (JObj cur) out)
                    \<and> map_of (spread (JObj cur) out) = map_of cur ++ map_of (own_props out)))
       \<and> (\<forall>b cb rb ob c cc xc key v.
            Execute b cb (Resolved rb) \<in> set tr \<and> get rb ''output'' = Inr ob
            \<and> map_of (own_props ob) key = Some v
            \<and> b < c \<and> Execute c cc xc \<in> set tr
            \<and> (\<forall>j cj rj oj. b < j \<and> j < c \<and> Execute j cj (Resolved rj) \<in> set tr
                   \<and> get rj ''output'' = Inr oj \<longrightarrow> key \<notin> fst ` set (own_props oj))
            \<longrightarrow> (\<exists>cur. cc = JObj cur \<and> map_of cur key = Some v))"
proof (cases "loadWorkflow env (workflow p)")
  case (Inl err)
  with run have "tr = []" by (simp add: run_def)
  then show ?thesis by simp
next
  case (Inr ss)
  with run have rf: "run_from env 0 ss (set_status ''running'' p) (obj_assign [] input) w = (r, p', w', tr)"
    by (simp add: run_unfold)
  have one: "\<exists>out. get result ''output'' = Inr out
                    \<and> nxt = JObj (spread (JObj cur) out)
                    \<and> map_of (spread (JObj cur) out) = map_of cur ++ map_of (own_props out)"
    if e: "Execute i (JObj cur) (Resolved result) \<in> set tr" "Execute (Suc i) nxt x \<in> set tr"
    for i cur result nxt x
  proof -
    from run_from_step_then_later[OF rf e] obtain out rest p1 w1 post where
      h: "get result ''output'' = Inr out"
         "run_from env (Suc i) rest p1 (spread (JObj cur) out) w1 = (r, p', w', post)"
         "Execute (Suc i) nxt x \<in> set post"
      by auto
    from run_from_head_input[OF h(2,3)] h(1) show ?thesis by (simp add: map_of_spread_obj)
  qed
  have two: "\<exists>cur. cc = JObj cur \<and> map_of cur key = Some v"
    if e: "Execute b cb (Resolved rb) \<in> set tr" "get rb ''output'' = Inr ob"
      "map_of (own_props ob) key = Some v" "b < c" "Execute c cc xc \<in> set tr"
      "\<forall>j cj rj oj. b < j \<and> j < c \<and> Execute j cj (Resolved rj) \<in> set tr
                   \<and> get rj ''output'' = Inr oj \<longrightarrow> key \<notin> fst ` set (own_props oj)"
    for b cb rb ob c cc xc key v
  proof -
    from run_from_first[OF rf] e(1) have "\<exists>cur. cb = JObj cur"
      using run_from_reach[OF rf e(1)] run_step_Execute by (metis event_step.simps(1))
    then obtain cur where cb: "cb = JObj cur" by blast
    from run_from_step_then_later[OF rf e(1)[unfolded cb] e(5,4)] e(2) obtain rest p1 w1 post where
      h: "run_from env (Suc b) rest p1 (spread (JObj cur) ob) w1 = (r, p', w', post)"
         "Execute c cc xc \<in> set post" "set post \<subseteq> set tr"
         "\<forall>e\<in>set post. \<forall>m. event_step e = Some m \<longrightarrow> b < m"
      by auto
    have nw: "\<forall>j cj rj oj. j < c \<and> Execute j cj (Resolved rj) \<in> set post \<and> get rj ''output'' = Inr oj
           \<longrightarrow> key \<notin> fst ` set (own_props oj)"
    proof (intro allI impI)
      fix j cj rj oj
      assume a: "j < c \<and> Execute j cj (Resolved rj) \<in> set post \<and> get rj ''output'' = Inr oj"
      with h(4) have "b < j" by fastforce
      with a h(3) e(6) show "key \<notin> fst ` set (own_props oj)" by blast
    qed
    from run_from_unwritten[OF h(1,2) nw] obtain cur' where
      "cc = JObj cur'" "map_of cur' key = map_of (spread (JObj cur) ob) key" by blast
    with e(3) show ?thesis by (simp add: map_of_spread_obj map_add_def)
  qed
  from one two show ?thesis by blast
qed

theorem outputs_accrete_last_writer_wins_witness:
  "Execute 0 (JObj []) (Resolved (ok_result research_output))
     \<in> set (calls (sample_run sample_modules quick_draft True []))
   \<and> map_of research_output ''x'' = Some (JNum 1)
   \<and> Execute 1 (JObj research_output) (Resolved (ok_result writer_output))
     \<in> set (calls (sample_run sample_modules quick_draft True []))
   \<and> map_of writer_output ''x'' = Some (JNum 2)
   \<and> Execute 2 (JObj (spread (JObj research_output) (JObj writer_output)))
        (fst (execute (createMockAgent ''publisher_agent'')
                (JObj (spread (JObj research_output) (JObj writer_output)))
                (step_options_obj (sample_pipeline True) (plain_step ''publisher_agent''))
                ([] :: string list)))
     \<in> set (calls (sample_run sample_modules quick_draft True []))
   \<and> map_of (spread (JObj research_output) (JObj writer_output)) ''x'' = Some (JNum 2)"
proof -
  let ?R = "sample_run sample_modules quick_draft True []"
  let ?in2 = "spread (JObj research_output) (JObj writer_output)"
  let ?x2 = "fst (execute (createMockAgent ''publisher_agent'') (JObj ?in2)
                   (step_options_obj (sample_pipeline True) (plain_step ''publisher_agent''))
                   ([] :: string list))"
  have run: "run (sample_env sample_modules quick_draft) (sample_pipeline True) (JObj []) []
               = (fst ?R, fst (snd ?R), fst (snd (snd ?R)), snd (snd (snd ?R)))"
    by (simp add: sample_run_def)
  have e0: "Execute 0 (JObj []) (Resolved (ok_result research_output)) \<in> set (calls ?R)"
    by code_simp
  have e1: "Execute 1 (JObj research_output) (Resolved (ok_result writer_output)) \<in> set (calls ?R)"
    by code_simp
  have e2: "Execute 2 (JObj ?in2) ?x2 \<in> set (calls ?R)"
    by code_simp
  have o1: "get (ok_result writer_output) ''output'' = Inr (JObj writer_output)"
    by (simp add: ok_result_def)
  have x1: "map_of research_output ''x'' = Some (JNum 1)" by (simp add: research_output_def)
  have x2: "map_of (own_props (JObj writer_output)) ''x'' = Some (JNum 2)"
    by (simp add: writer_output_def)
  have none: "\<forall>j cj rj oj. (1::nat) < j \<and> j < 2 \<and> Execute j cj (Resolved rj) \<in> set (calls ?R)
                 \<and> get rj ''output'' = Inr oj \<longrightarrow> ''x'' \<notin> fst ` set (own_props oj)"
    by auto
  have prem: "Execute 1 (JObj research_output) (Resolved (ok_result writer_output)) \<in> set (calls ?R)
       \<and> get (ok_result writer_output) ''output'' = Inr (JObj writer_output)
       \<and> map_of (own_props (JObj writer_output)) ''x'' = Some (JNum 2)
       \<and> (1::nat) < 2 \<and> Execute 2 (JObj ?in2) ?x2 \<in> set (calls ?R)
       \<and> (\<forall>j cj rj oj. 1 < j \<and> j < 2 \<and> Execute j cj (Resolved rj) \<in> set (calls ?R)
                 \<and> get rj ''output'' = Inr oj \<longrightarrow> ''x'' \<notin> fst ` set (own_props oj))"
    using e1 o1 x2 e2 none by (intro conjI) simp_all
  note lw = outputs_accrete_last_writer_wins[OF run, THEN conjunct2, rule_format]
  from lw[OF prem] have "\<exists>cur. JObj ?in2 = JObj cur \<and> map_of cur ''x'' = Some (JNum 2)" .
  then have "map_of ?in2 ''x'' = Some (JNum 2)" by simp
  with e0 e1 x1 x2 e2 show ?thesis by simp
qed








end
